theory Spec2Isabelle
  imports Main "HOL-Library.Product_Lexorder" "HOL-Library.Sublist"
begin

section \<open>Shared Python notions\<close>

text \<open>
  A cell is a Python tuple \<open>(i, j)\<close> of unbounded integers. The exceptions the
  modelled code can raise are values; a method call that mutates its object either
  returns, or raises and leaves the object as it was at the raise.
\<close>

type_synonym cell = "int \<times> int"

datatype error = ValueError | IndexError

datatype 'a outcome = Returns 'a | Raises error 'a

text \<open>The object after a call, whichever way the call has ended.\<close>

fun state_of :: "'a outcome \<Rightarrow> 'a" where
  "state_of (Returns a) = a"
| "state_of (Raises e a) = a"

text \<open>\<open>range(a, b)\<close> of Python: the integers from \<open>a\<close> up to \<open>b - 1\<close>.\<close>

definition py_range :: "int \<Rightarrow> int \<Rightarrow> int list" where
  "py_range a b = [a..b - 1]"

text \<open>
  \<open>xs[i]\<close> of Python: a negative index counts from the end, an index out of range
  raises IndexError.
\<close>

definition py_get :: "'a list \<Rightarrow> int \<Rightarrow> error + 'a" where
  "py_get xs i =
     (let n = int (length xs); k = (if i < 0 then n + i else i)
      in if 0 \<le> k \<and> k < n then Inr (xs ! nat k) else Inl IndexError)"

text \<open>
  \<open>xs.remove(x)\<close> of Python: removes the first element equal to \<open>x\<close>, raises
  ValueError when there is none.
\<close>

definition list_remove :: "'a \<Rightarrow> 'a list \<Rightarrow> error + 'a list" where
  "list_remove x xs = (if x \<in> set xs then Inr (remove1 x xs) else Inl ValueError)"

text \<open>
  Iterating over a Python set visits every element once, in an order the language
  leaves open. The model visits them in increasing order; the two marking loops of
  \<open>add_knowledge\<close>, which iterate over a set, are shown below to give the same
  state in every order.
\<close>

definition py_iter :: "cell set \<Rightarrow> cell list" where
  "py_iter S = sorted_list_of_set S"

section \<open>class Minesweeper\<close>

record minesweeper =
  height :: int
  width :: int
  mines :: "cell set"
  board :: "bool list list"
  mines_found :: "cell set"

text \<open>
  \<open>random.randrange(n)\<close>: raises ValueError when \<open>n \<le> 0\<close>, otherwise some integer
  of \<open>range(n)\<close>. The random source is a list of raw draws, one pair for each round
  of the placement loop; \<open>randrange\<close> reduces a draw into the range.
\<close>

definition randrange :: "int \<Rightarrow> nat \<Rightarrow> error + int" where
  "randrange n r = (if n \<le> 0 then Inl ValueError else Inr (int r mod n))"

definition empty_board :: "int \<Rightarrow> int \<Rightarrow> bool list list" where
  "empty_board h w = replicate (nat h) (replicate (nat w) False)"

text \<open>
  The \<open>while len(self.mines) != mines\<close> loop of \<open>__init__\<close>. It runs for as long as
  the random source decides; the draws are its fuel, and \<open>None\<close> says that the
  loop has not finished when the draws are used up. \<open>board[i][j]\<close> is read and
  written at indices that \<open>randrange\<close> has put into \<open>range(height)\<close> and
  \<open>range(width)\<close>.
\<close>

fun add_mines :: "int \<Rightarrow> int \<Rightarrow> int \<Rightarrow> (nat \<times> nat) list \<Rightarrow> minesweeper
    \<Rightarrow> (error + minesweeper) option" where
  "add_mines h w n rs g =
     (if int (card (mines g)) \<noteq> n then
        (case rs of
           [] \<Rightarrow> None
         | (r1, r2) # rs' \<Rightarrow>
            (case randrange h r1 of
               Inl e \<Rightarrow> Some (Inl e)
             | Inr i \<Rightarrow>
                (case randrange w r2 of
                   Inl e \<Rightarrow> Some (Inl e)
                 | Inr j \<Rightarrow>
                    (case py_get (board g) i of
                       Inl e \<Rightarrow> Some (Inl e)
                     | Inr row \<Rightarrow>
                        (case py_get row j of
                           Inl e \<Rightarrow> Some (Inl e)
                         | Inr b \<Rightarrow>
                            if \<not> b then
                              add_mines h w n rs'
                                (g\<lparr>mines := insert (i, j) (mines g),
                                   board := (board g)[nat i := row[nat j := True]]\<rparr>)
                            else add_mines h w n rs' g)))))
      else Some (Inr g))"

text \<open>
  \<open>Minesweeper.__init__(height, width, mines)\<close>. The field \<open>mines_found\<close> is
  assigned after the loop in the source; nothing reads it before.
\<close>

definition init :: "int \<Rightarrow> int \<Rightarrow> int \<Rightarrow> (nat \<times> nat) list \<Rightarrow> (error + minesweeper) option" where
  "init h w n rs =
     add_mines h w n rs
       \<lparr>height = h, width = w, mines = {}, board = empty_board h w, mines_found = {}\<rparr>"

definition is_mine :: "minesweeper \<Rightarrow> cell \<Rightarrow> error + bool" where
  "is_mine g cell =
     (case cell of (i, j) \<Rightarrow>
        (case py_get (board g) i of Inl e \<Rightarrow> Inl e | Inr row \<Rightarrow> py_get row j))"

text \<open>The body of the double loop of \<open>nearby_mines\<close>, for one \<open>(i, j)\<close>.\<close>

definition nearby_step :: "minesweeper \<Rightarrow> cell \<Rightarrow> cell \<Rightarrow> error + int \<Rightarrow> error + int" where
  "nearby_step g cell ij acc =
     (case acc of
        Inl e \<Rightarrow> Inl e
      | Inr cnt \<Rightarrow>
         (case ij of (i, j) \<Rightarrow>
            if (i, j) = cell then Inr cnt
            else if 0 \<le> i \<and> i < height g \<and> 0 \<le> j \<and> j < width g then
              (case py_get (board g) i of
                 Inl e \<Rightarrow> Inl e
               | Inr row \<Rightarrow>
                  (case py_get row j of
                     Inl e \<Rightarrow> Inl e
                   | Inr b \<Rightarrow> if b then Inr (cnt + 1) else Inr cnt))
            else Inr cnt))"

definition around :: "cell \<Rightarrow> cell list" where
  "around cell =
     concat (map (\<lambda>i. map (\<lambda>j. (i, j)) (py_range (snd cell - 1) (snd cell + 2)))
                 (py_range (fst cell - 1) (fst cell + 2)))"

definition nearby_mines :: "minesweeper \<Rightarrow> cell \<Rightarrow> error + int" where
  "nearby_mines g cell = fold (nearby_step g cell) (around cell) (Inr 0)"

definition won :: "minesweeper \<Rightarrow> bool" where
  "won g = (mines_found g = mines g)"

text \<open>
  The methods of the class after construction. None of them assigns to a field of
  \<open>self\<close>, so the state after each call is the state before it (\<open>print\<close> only
  writes to the terminal).
\<close>

datatype game_op = Print | IsMine cell | NearbyMines cell | Won

fun game_step :: "game_op \<Rightarrow> minesweeper \<Rightarrow> minesweeper" where
  "game_step Print g = g"
| "game_step (IsMine c) g = g"
| "game_step (NearbyMines c) g = g"
| "game_step Won g = g"

section \<open>class Sentence\<close>

record sentence =
  cells :: "cell set"
  count :: int

definition Sentence :: "cell set \<Rightarrow> int \<Rightarrow> sentence" where
  "Sentence cs n = \<lparr>cells = cs, count = n\<rparr>"

definition known_mines :: "sentence \<Rightarrow> cell set" where
  "known_mines s = (if int (card (cells s)) = count s then cells s else {})"

definition known_safes :: "sentence \<Rightarrow> cell set" where
  "known_safes s = (if count s = 0 then cells s else {})"

text \<open>
  The two queries as method calls: the value returned and the sentence after the
  call. Their bodies assign nothing to \<open>self\<close> and return a fresh set.
\<close>

definition known_mines_call :: "sentence \<Rightarrow> cell set \<times> sentence" where
  "known_mines_call s = (known_mines s, s)"

definition known_safes_call :: "sentence \<Rightarrow> cell set \<times> sentence" where
  "known_safes_call s = (known_safes s, s)"

definition sentence_mark_mine :: "cell \<Rightarrow> sentence \<Rightarrow> sentence" where
  "sentence_mark_mine cell s =
     (if cell \<in> cells s then s\<lparr>cells := cells s - {cell}, count := count s - 1\<rparr> else s)"

definition sentence_mark_safe :: "cell \<Rightarrow> sentence \<Rightarrow> sentence" where
  "sentence_mark_safe cell s =
     (if cell \<in> cells s then s\<lparr>cells := cells s - {cell}\<rparr> else s)"

section \<open>class MinesweeperAI\<close>

record minesweeper_ai =
  height :: int
  width :: int
  moves_made :: "cell set"
  mines :: "cell set"
  safes :: "cell set"
  knowledge :: "sentence list"

definition ai_init :: "int \<Rightarrow> int \<Rightarrow> minesweeper_ai" where
  "ai_init h w =
     \<lparr>height = h, width = w, moves_made = {}, mines = {}, safes = {}, knowledge = []\<rparr>"

definition mark_mine :: "cell \<Rightarrow> minesweeper_ai \<Rightarrow> minesweeper_ai" where
  "mark_mine cell ai =
     ai\<lparr>mines := insert cell (mines ai),
        knowledge := map (sentence_mark_mine cell) (knowledge ai)\<rparr>"

definition mark_safe :: "cell \<Rightarrow> minesweeper_ai \<Rightarrow> minesweeper_ai" where
  "mark_safe cell ai =
     ai\<lparr>safes := insert cell (safes ai),
        knowledge := map (sentence_mark_safe cell) (knowledge ai)\<rparr>"

text \<open>
  The body of the neighbour loop of \<open>add_knowledge\<close> for one \<open>(i, j)\<close>, on the
  pair of the local variables \<open>adjCells\<close> and \<open>count\<close>.
\<close>

definition adjacent_step :: "minesweeper_ai \<Rightarrow> cell \<Rightarrow> cell list \<times> int \<Rightarrow> cell list \<times> int" where
  "adjacent_step ai ij acc =
     (case acc of (adjCells, cnt) \<Rightarrow>
        (case ij of (i, j) \<Rightarrow>
           if i \<ge> 0 \<and> j \<ge> 0 \<and> i < height ai \<and> j < width ai \<and> (i, j) \<notin> safes ai then
             if (i, j) \<in> mines ai then (adjCells, cnt - 1)
             else (adjCells @ [(i, j)], cnt)
           else (adjCells, cnt)))"

definition adjacent :: "minesweeper_ai \<Rightarrow> cell \<Rightarrow> int \<Rightarrow> cell list \<times> int" where
  "adjacent ai cell cnt = fold (adjacent_step ai) (around cell) ([], cnt)"

definition new_sentence :: "minesweeper_ai \<Rightarrow> cell \<Rightarrow> int \<Rightarrow> sentence" where
  "new_sentence ai cell cnt =
     (case adjacent ai cell cnt of (adjCells, cnt') \<Rightarrow> Sentence (set adjCells) cnt')"

text \<open>
  The first loop over \<open>self.knowledge\<close> (``This reevaluates our knowledge''). A
  Python list iterator keeps an index and stops when the index reaches the current
  length. The sentence objects are mutated by the marking calls while the loop
  runs, so the sentence at the index is read again after the safes were marked.
\<close>

partial_function (option) reevaluate :: "nat \<Rightarrow> minesweeper_ai \<Rightarrow> minesweeper_ai option" where
  "reevaluate i ai =
     (if i < length (knowledge ai) then
        (let ai1 = fold mark_safe (py_iter (known_safes (knowledge ai ! i))) ai;
             ai2 = fold mark_mine (py_iter (known_mines (knowledge ai1 ! i))) ai1
         in reevaluate (i + 1) ai2)
      else Some ai)"

text \<open>
  The inner loop of the pairwise scan, for the outer sentence \<open>s\<close>: \<open>j\<close> is the
  index of the inner list iterator, \<open>K\<close> is \<open>self.knowledge\<close> and \<open>NK\<close> is
  \<open>newKnowledge\<close>. No sentence is mutated during the scan, so a reference to a
  sentence and its value agree. \<open>K\<close> shrinks under the iterators.
\<close>

partial_function (option) resolve_inner ::
    "sentence \<Rightarrow> nat \<Rightarrow> sentence list \<Rightarrow> sentence list
      \<Rightarrow> (sentence list \<times> sentence list) outcome option" where
  "resolve_inner s j K NK =
     (if j < length K then
        (let other = K ! j in
         case (if cells other = {} then list_remove other K else Inr K) of
           Inl e \<Rightarrow> Some (Raises e (K, NK))
         | Inr K1 \<Rightarrow>
            if cells s \<noteq> {} \<and> cells other \<noteq> {} \<and> s \<noteq> other then
              if card (cells s) > card (cells other) \<and> cells other \<subseteq> cells s then
                (case list_remove s K1 of
                   Inl e \<Rightarrow> Some (Raises e (K1, NK))
                 | Inr K2 \<Rightarrow>
                    resolve_inner s (j + 1) K2
                      (NK @ [Sentence (cells s - cells other) (count s - count other)]))
              else if card (cells other) > card (cells s) \<and> cells s \<subseteq> cells other then
                (case list_remove other K1 of
                   Inl e \<Rightarrow> Some (Raises e (K1, NK))
                 | Inr K2 \<Rightarrow>
                    resolve_inner s (j + 1) K2
                      (NK @ [Sentence (cells other - cells s) (count other - count s)]))
              else resolve_inner s (j + 1) K1 NK
            else resolve_inner s (j + 1) K1 NK)
      else Some (Returns (K, NK)))"

text \<open>The outer loop of the pairwise scan; \<open>i\<close> is the index of its iterator.\<close>

partial_function (option) resolve_outer ::
    "nat \<Rightarrow> sentence list \<Rightarrow> sentence list
      \<Rightarrow> (sentence list \<times> sentence list) outcome option" where
  "resolve_outer i K NK =
     (if i < length K then
        (let s = K ! i in
         case (if cells s = {} then list_remove s K else Inr K) of
           Inl e \<Rightarrow> Some (Raises e (K, NK))
         | Inr K1 \<Rightarrow>
            (case resolve_inner s 0 K1 NK of
               None \<Rightarrow> None
             | Some (Raises e st) \<Rightarrow> Some (Raises e st)
             | Some (Returns (K2, NK2)) \<Rightarrow> resolve_outer (i + 1) K2 NK2))
      else Some (Returns (K, NK)))"

text \<open>
  \<open>MinesweeperAI.add_knowledge(cell, count)\<close> down to
  \<open>self.knowledge.append(newSentence)\<close>: the move is recorded, the cell is marked
  safe, and the sentence built from the neighbours, in the state that the marking
  has left, is appended.
\<close>

definition add_sentence :: "cell \<Rightarrow> int \<Rightarrow> minesweeper_ai \<Rightarrow> minesweeper_ai" where
  "add_sentence cell cnt ai =
     (let ai1 = ai\<lparr>moves_made := insert cell (moves_made ai)\<rparr>;
          ai2 = mark_safe cell ai1;
          newSentence = new_sentence ai2 cell cnt
      in ai2\<lparr>knowledge := knowledge ai2 @ [newSentence]\<rparr>)"

text \<open>
  \<open>add_knowledge\<close> up to the end of its first loop: after the new sentence is
  appended, the knowledge is reevaluated. \<open>None\<close> stands for a call that never
  comes back.
\<close>

definition add_and_mark :: "cell \<Rightarrow> int \<Rightarrow> minesweeper_ai \<Rightarrow> minesweeper_ai option" where
  "add_and_mark cell cnt ai = reevaluate 0 (add_sentence cell cnt ai)"

text \<open>
  The whole of \<open>add_knowledge\<close>: the pairwise scan starts from the knowledge that
  \<open>add_and_mark\<close> has left, and \<open>newKnowledge\<close> is appended when the scan is over.
  \<open>Raises\<close> carries the object as the exception leaves it (\<open>newKnowledge\<close> is a
  local variable and is lost).
\<close>

definition add_knowledge :: "cell \<Rightarrow> int \<Rightarrow> minesweeper_ai \<Rightarrow> minesweeper_ai outcome option" where
  "add_knowledge cell cnt ai =
     (case add_and_mark cell cnt ai of
        None \<Rightarrow> None
      | Some ai4 \<Rightarrow>
         (case resolve_outer 0 (knowledge ai4) [] of
            None \<Rightarrow> None
          | Some (Raises e (K, NK)) \<Rightarrow> Some (Raises e (ai4\<lparr>knowledge := K\<rparr>))
          | Some (Returns (K, NK)) \<Rightarrow> Some (Returns (ai4\<lparr>knowledge := K @ NK\<rparr>))))"

text \<open>
  \<open>make_safe_move\<close> returns the first cell that is not in \<open>moves_made\<close>, in
  the order in which Python iterates over \<open>self.safes\<close>. The language leaves that
  order open, so it is a parameter: \<open>order\<close> is the enumeration of \<open>safes\<close> that
  the iteration follows. \<open>make_random_move\<close> collects the eligible cells row by
  row and lets \<open>random.choice\<close> pick one; the draw \<open>r\<close> is the random input.
  Neither assigns to a field of \<open>self\<close>.
\<close>

definition make_safe_move :: "cell list \<Rightarrow> minesweeper_ai \<Rightarrow> cell option" where
  "make_safe_move order ai = find (\<lambda>x. x \<notin> moves_made ai) order"

definition cells_of :: "int \<Rightarrow> int \<Rightarrow> cell list" where
  "cells_of h w = concat (map (\<lambda>i. map (\<lambda>j. (i, j)) (py_range 0 w)) (py_range 0 h))"

definition make_random_move :: "nat \<Rightarrow> minesweeper_ai \<Rightarrow> cell option" where
  "make_random_move r ai =
     (let randSet = filter (\<lambda>c. c \<notin> mines ai \<and> c \<notin> moves_made ai)
                      (cells_of (height ai) (width ai))
      in if randSet \<noteq> [] then Some (randSet ! (r mod length randSet)) else None)"

text \<open>
  The calls on a \<open>MinesweeperAI\<close>. \<open>call\<close> is the outcome of one call on the
  object, \<open>ai_step\<close> is the object after the call, also when the call has raised,
  and \<open>calls\<close> makes one call after the other for as long as they return.
\<close>

datatype ai_op =
    AddKnowledge cell int
  | MarkMine cell
  | MarkSafe cell
  | MakeSafeMove
  | MakeRandomMove nat

fun call :: "ai_op \<Rightarrow> minesweeper_ai \<Rightarrow> minesweeper_ai outcome option" where
  "call (AddKnowledge c n) ai = add_knowledge c n ai"
| "call (MarkMine c) ai = Some (Returns (mark_mine c ai))"
| "call (MarkSafe c) ai = Some (Returns (mark_safe c ai))"
| "call MakeSafeMove ai = Some (Returns ai)"
| "call (MakeRandomMove r) ai = Some (Returns ai)"

definition ai_step :: "ai_op \<Rightarrow> minesweeper_ai \<Rightarrow> minesweeper_ai" where
  "ai_step op ai = (case call op ai of None \<Rightarrow> ai | Some r \<Rightarrow> state_of r)"

fun calls :: "ai_op list \<Rightarrow> minesweeper_ai \<Rightarrow> minesweeper_ai outcome option" where
  "calls [] ai = Some (Returns ai)"
| "calls (op # ops) ai =
     (case call op ai of
        None \<Rightarrow> None
      | Some (Raises e ai') \<Rightarrow> Some (Raises e ai')
      | Some (Returns ai') \<Rightarrow> calls ops ai')"


section \<open>Boards and truthful calls\<close>

definition in_bounds :: "int \<Rightarrow> int \<Rightarrow> cell \<Rightarrow> bool" where
  "in_bounds h w c = (0 \<le> fst c \<and> fst c < h \<and> 0 \<le> snd c \<and> snd c < w)"

text \<open>On every cell of the grid, \<open>is_mine\<close> answers whether the cell is in \<open>mines\<close>.\<close>

definition board_agrees :: "minesweeper \<Rightarrow> bool" where
  "board_agrees g =
     (\<forall>c \<in> set (cells_of (minesweeper.height g) (minesweeper.width g)).
        is_mine g c = Inr (c \<in> minesweeper.mines g))"

definition game_inv :: "int \<Rightarrow> minesweeper \<Rightarrow> bool" where
  "game_inv n g =
     (int (card (minesweeper.mines g)) = n
      \<and> (\<forall>c \<in> minesweeper.mines g. in_bounds (minesweeper.height g) (minesweeper.width g) c)
      \<and> board_agrees g)"

text \<open>
  A call on the AI reports the board \<open>g\<close> truthfully: an observed cell is not a
  mine and comes with the count that \<open>nearby_mines\<close> gives for it, a cell marked
  as a mine is one, a cell marked safe is none.
\<close>

fun truthful :: "minesweeper \<Rightarrow> ai_op \<Rightarrow> bool" where
  "truthful g (AddKnowledge c n) = (c \<notin> minesweeper.mines g \<and> nearby_mines g c = Inr n)"
| "truthful g (MarkMine c) = (c \<in> minesweeper.mines g)"
| "truthful g (MarkSafe c) = (c \<notin> minesweeper.mines g)"
| "truthful g MakeSafeMove = True"
| "truthful g (MakeRandomMove r) = True"

text \<open>Three small boards, each the result of \<open>__init__\<close> on one draw.\<close>

definition board_1x4 :: minesweeper where
  "board_1x4 =
     \<lparr>minesweeper.height = 1, width = 4, mines = {(0, 2)},
      board = [[False, False, True, False]], mines_found = {}\<rparr>"

definition board_2x3 :: minesweeper where
  "board_2x3 =
     \<lparr>minesweeper.height = 2, width = 3, mines = {(0, 0)},
      board = [[True, False, False], [False, False, False]], mines_found = {}\<rparr>"

definition board_3x3 :: minesweeper where
  "board_3x3 =
     \<lparr>minesweeper.height = 3, width = 3, mines = {(1, 1)},
      board = [[False, False, False], [False, True, False], [False, False, False]],
      mines_found = {}\<rparr>"




text \<open>
  What the pairwise scan leaves when it ends, by return or by exception, having
  started on the knowledge \<open>K\<close>: entries of \<open>K\<close>, no more of them than before, and
  a \<open>newKnowledge\<close> whose sentences satisfy \<open>Q\<close>.
\<close>

definition scan_post :: "(sentence \<Rightarrow> bool) \<Rightarrow> sentence list
    \<Rightarrow> (sentence list \<times> sentence list) outcome \<Rightarrow> bool" where
  "scan_post Q K r =
     (set (fst (state_of r)) \<subseteq> set K \<and> length (fst (state_of r)) \<le> length K
      \<and> (\<forall>d \<in> set (snd (state_of r)). Q d))"

text \<open>
  The cell \<open>c\<close> is resolved in an AI: it is known to be safe and no sentence of the
  knowledge mentions it.
\<close>

definition cell_resolved :: "cell \<Rightarrow> minesweeper_ai \<Rightarrow> bool" where
  "cell_resolved c a = (c \<in> safes a \<and> (\<forall>s \<in> set (knowledge a). c \<notin> cells s))"

text \<open>
  A sentence that the pairwise scan of the knowledge \<open>K\<close> may remove: it is empty,
  or its cells strictly include the cells of a non-empty entry of \<open>K\<close>.
\<close>

definition retirable :: "sentence list \<Rightarrow> sentence \<Rightarrow> bool" where
  "retirable K s = (cells s = {} \<or> (\<exists>b \<in> set K. cells b \<noteq> {} \<and> cells b \<subset> cells s))"

text \<open>
  \<open>K'\<close> is \<open>K\<close> with some retirable entries removed: the other entries are
  all there, as often as before, in the order they had.
\<close>

definition kept :: "sentence list \<Rightarrow> sentence list \<Rightarrow> bool" where
  "kept K K' =
     (subseq K' K \<and> (\<forall>t. \<not> retirable K t \<longrightarrow> count_list K' t = count_list K t))"

text \<open>
  The shape of a board during the placement loop of \<open>__init__\<close>: \<open>height\<close> rows of
  \<open>width\<close> columns, finitely many mines, all on the grid, and a \<open>True\<close> exactly at
  the mines.
\<close>

definition board_shape :: "int \<Rightarrow> int \<Rightarrow> minesweeper \<Rightarrow> bool" where
  "board_shape h w g =
     (minesweeper.height g = h \<and> minesweeper.width g = w \<and> finite (minesweeper.mines g)
      \<and> length (board g) = nat h \<and> (\<forall>row \<in> set (board g). length row = nat w)
      \<and> (\<forall>c \<in> minesweeper.mines g. in_bounds h w c)
      \<and> (\<forall>i j. in_bounds h w (i, j) \<longrightarrow>
            board g ! nat i ! nat j = ((i, j) \<in> minesweeper.mines g)))"

text \<open>
  The \<open>k\<close>-th cell of a grid of width \<open>w\<close>, row by row: a sequence of draws
  that never hits the same cell twice.
\<close>

definition nth_cell :: "int \<Rightarrow> nat \<Rightarrow> cell" where
  "nth_cell w k = (int (k div nat w), int (k mod nat w))"

declare reevaluate.simps [code]
declare resolve_inner.simps [code]
declare resolve_outer.simps [code]
declare add_mines.simps [simp del]

section \<open>Auxiliary facts\<close>

lemma ai_step_simps [simp]:
  "ai_step (AddKnowledge c n) ai =
     (case add_knowledge c n ai of None \<Rightarrow> ai | Some r \<Rightarrow> state_of r)"
  "ai_step (MarkMine c) ai = mark_mine c ai"
  "ai_step (MarkSafe c) ai = mark_safe c ai"
  "ai_step MakeSafeMove ai = ai"
  "ai_step (MakeRandomMove r) ai = ai"
  by (simp_all add: ai_step_def)

lemma py_range3: "py_range (a - 1) (a + 2) = [a - 1, a, a + 1]"
proof -
  have 1: "[a - 1..a + 1] = (a - 1) # [a..a + 1]" by (subst upto_rec1) simp_all
  have 2: "[a..a + 1] = a # [a + 1..a + 1]" by (subst upto_rec1) simp_all
  have 3: "a + 2 - 1 = a + 1" by simp
  show ?thesis unfolding py_range_def 3 1 2 by simp
qed

lemma around_eq:
  "around (r, c) =
     [(r - 1, c - 1), (r - 1, c), (r - 1, c + 1), (r, c - 1), (r, c), (r, c + 1),
      (r + 1, c - 1), (r + 1, c), (r + 1, c + 1)]"
  by (simp add: around_def py_range3)

lemma adjacent_step_eq:
  "adjacent_step ai c (acc, n) =
     (if in_bounds (height ai) (width ai) c \<and> c \<notin> safes ai then
        if c \<in> mines ai then (acc, n - 1) else (acc @ [c], n)
      else (acc, n))"
  by (cases c) (auto simp: adjacent_step_def in_bounds_def)

lemma adjacent_fold:
  "fold (adjacent_step ai) xs (acc, n) =
     (acc @ filter (\<lambda>c. in_bounds (height ai) (width ai) c \<and> c \<notin> safes ai \<and> c \<notin> mines ai) xs,
      n - int (length (filter (\<lambda>c. in_bounds (height ai) (width ai) c \<and> c \<notin> safes ai
                                     \<and> c \<in> mines ai) xs)))"
  by (induction xs arbitrary: acc n) (simp_all add: adjacent_step_eq)

section \<open>Loops over a Python set\<close>

text \<open>
  Marking the cells of a list one after the other has a closed form, which does not
  depend on the order of the list: the two loops of \<open>add_knowledge\<close> that iterate
  over a copy of a cell set give the same state in whatever order Python visits the
  set.
\<close>

lemma sentence_mark_safe_eq: "sentence_mark_safe c s = s\<lparr>cells := cells s - {c}\<rparr>"
  by (simp add: sentence_mark_safe_def)

lemma sentence_mark_mine_eq:
  "sentence_mark_mine c s =
     s\<lparr>cells := cells s - {c}, count := count s - int (card (cells s \<inter> {c}))\<rparr>"
  by (simp add: sentence_mark_mine_def)

lemma fold_mark_safe:
  "fold mark_safe xs ai =
     ai\<lparr>safes := safes ai \<union> set xs,
        knowledge := map (\<lambda>s. s\<lparr>cells := cells s - set xs\<rparr>) (knowledge ai)\<rparr>"
proof (induction xs arbitrary: ai)
  case Nil
  show ?case by simp
next
  case (Cons x xs)
  have 1: "cells s - {x} - set xs = cells s - insert x (set xs)" for s :: sentence by auto
  have "fold mark_safe (x # xs) ai = fold mark_safe xs (mark_safe x ai)" by simp
  also have "\<dots> = (mark_safe x ai)\<lparr>safes := safes (mark_safe x ai) \<union> set xs,
        knowledge := map (\<lambda>s. s\<lparr>cells := cells s - set xs\<rparr>) (knowledge (mark_safe x ai))\<rparr>"
    by (rule Cons.IH)
  also have "\<dots> = ai\<lparr>safes := safes ai \<union> set (x # xs),
        knowledge := map (\<lambda>s. s\<lparr>cells := cells s - set (x # xs)\<rparr>) (knowledge ai)\<rparr>"
    by (simp add: mark_safe_def sentence_mark_safe_eq comp_def 1)
  finally show ?case .
qed

lemma card_split_mine:
  assumes "x \<notin> X" "finite X"
  shows "int (card (C \<inter> {x})) + int (card ((C - {x}) \<inter> X)) = int (card (C \<inter> insert x X))"
proof -
  have "C \<inter> insert x X = (C \<inter> {x}) \<union> ((C - {x}) \<inter> X)" by auto
  moreover have "(C \<inter> {x}) \<inter> ((C - {x}) \<inter> X) = {}" by auto
  moreover have "finite (C \<inter> {x})" "finite ((C - {x}) \<inter> X)" using assms by auto
  ultimately show ?thesis by (simp add: card_Un_disjoint)
qed

lemma fold_mark_mine:
  "distinct xs \<Longrightarrow>
   fold mark_mine xs ai =
     ai\<lparr>mines := mines ai \<union> set xs,
        knowledge := map (\<lambda>s. s\<lparr>cells := cells s - set xs,
                                 count := count s - int (card (cells s \<inter> set xs))\<rparr>)
                       (knowledge ai)\<rparr>"
proof (induction xs arbitrary: ai)
  case Nil
  show ?case by simp
next
  case (Cons x xs)
  have 1: "cells s - {x} - set xs = cells s - insert x (set xs)" for s :: sentence by auto
  have 2: "count s - int (card (cells s \<inter> {x})) - int (card ((cells s - {x}) \<inter> set xs))
         = count s - int (card (cells s \<inter> insert x (set xs)))" for s :: sentence
    using card_split_mine [of x "set xs" "cells s"] Cons.prems by simp
  from Cons.prems have d: "distinct xs" by simp
  have "fold mark_mine (x # xs) ai = fold mark_mine xs (mark_mine x ai)" by simp
  also have "\<dots> = (mark_mine x ai)\<lparr>mines := mines (mark_mine x ai) \<union> set xs,
        knowledge := map (\<lambda>s. s\<lparr>cells := cells s - set xs,
                                 count := count s - int (card (cells s \<inter> set xs))\<rparr>)
                       (knowledge (mark_mine x ai))\<rparr>"
    by (rule Cons.IH [OF d])
  also have "\<dots> = ai\<lparr>mines := mines ai \<union> set (x # xs),
        knowledge := map (\<lambda>s. s\<lparr>cells := cells s - set (x # xs),
                                 count := count s - int (card (cells s \<inter> set (x # xs)))\<rparr>)
                       (knowledge ai)\<rparr>"
    by (simp add: mark_mine_def sentence_mark_mine_eq comp_def 1 2 del: Int_insert_right)
  finally show ?case .
qed

lemma fold_mark_safe_order: "set xs = set ys \<Longrightarrow> fold mark_safe xs ai = fold mark_safe ys ai"
  by (simp add: fold_mark_safe)

lemma fold_mark_mine_order:
  "distinct xs \<Longrightarrow> distinct ys \<Longrightarrow> set xs = set ys \<Longrightarrow> fold mark_mine xs ai = fold mark_mine ys ai"
  by (simp add: fold_mark_mine)

lemma py_iter_enumerates: "distinct (py_iter S) \<and> (finite S \<longrightarrow> set (py_iter S) = S)"
  by (simp add: py_iter_def)


lemma length_fold_mark_safe [simp]: "length (knowledge (fold mark_safe xs ai)) = length (knowledge ai)"
  by (simp add: fold_mark_safe)

lemma length_fold_mark_mine [simp]: "length (knowledge (fold mark_mine xs ai)) = length (knowledge ai)"
  by (induction xs arbitrary: ai) (simp_all add: mark_mine_def)



section \<open>The queries and mutators of a sentence\<close>

text \<open>
  Claim C6. \<open>known_mines()\<close> returns the whole cell set when \<open>count\<close> equals the
  number of cells and the empty set otherwise; \<open>known_safes()\<close> returns the whole
  cell set when \<open>count\<close> is 0 and the empty set otherwise; the sentence after either
  call is the sentence before it.
\<close>

theorem known_queries:
  "known_mines_call s = (if int (card (cells s)) = count s then cells s else {}, s)
   \<and> known_safes_call s = (if count s = 0 then cells s else {}, s)"
  by (simp add: known_mines_call_def known_safes_call_def known_mines_def known_safes_def)

theorem known_queries_witness:
  "known_mines_call (Sentence {(0, 0)} 1) = ({(0, 0)}, Sentence {(0, 0)} 1)
   \<and> known_safes_call (Sentence {(0, 0)} 1) = ({}, Sentence {(0, 0)} 1)"
  using known_queries [of "Sentence {(0, 0)} 1"] by (simp add: Sentence_def)

text \<open>
  Claim C7. Marking the same cell twice, as a mine or as safe, leaves a sentence as
  marking it once does. \<open>mark_mine\<close> on a cell of the sentence removes the cell
  and lowers \<open>count\<close> by exactly 1, \<open>mark_safe\<close> removes the cell and keeps
  \<open>count\<close>, and both leave the sentence alone when the cell is not in it. Marking
  twice equals marking once for the whole state of a \<open>MinesweeperAI\<close> too.
\<close>

theorem mark_idempotent:
  "sentence_mark_mine c (sentence_mark_mine c s) = sentence_mark_mine c s
   \<and> sentence_mark_safe c (sentence_mark_safe c s) = sentence_mark_safe c s
   \<and> (c \<in> cells s \<longrightarrow>
        sentence_mark_mine c s = s\<lparr>cells := cells s - {c}, count := count s - 1\<rparr>)
   \<and> (c \<in> cells s \<longrightarrow> sentence_mark_safe c s = s\<lparr>cells := cells s - {c}\<rparr>)
   \<and> (c \<notin> cells s \<longrightarrow> sentence_mark_mine c s = s \<and> sentence_mark_safe c s = s)
   \<and> mark_mine c (mark_mine c ai) = mark_mine c ai
   \<and> mark_safe c (mark_safe c ai) = mark_safe c ai"
  by (simp add: sentence_mark_mine_def sentence_mark_safe_def mark_mine_def mark_safe_def)

theorem mark_idempotent_witness:
  "(0, 0) \<in> cells (Sentence {(0, 0), (0, 1)} 2)
   \<and> (0, 2) \<notin> cells (Sentence {(0, 0), (0, 1)} 2)
   \<and> sentence_mark_mine (0, 0) (Sentence {(0, 0), (0, 1)} 2) = Sentence {(0, 1)} 1
   \<and> sentence_mark_mine (0, 0) (Sentence {(0, 1)} 1) = Sentence {(0, 1)} 1
   \<and> sentence_mark_safe (0, 0) (Sentence {(0, 0), (0, 1)} 2) = Sentence {(0, 1)} 2
   \<and> sentence_mark_mine (0, 2) (Sentence {(0, 0), (0, 1)} 2) = Sentence {(0, 0), (0, 1)} 2"
proof -
  have in1: "(0, 0) \<in> cells (Sentence {(0, 0), (0, 1)} 2)"
    and out1: "(0, 2) \<notin> cells (Sentence {(0, 0), (0, 1)} 2)"
    and out2: "(0, 0) \<notin> cells (Sentence {(0, 1)} 1)"
    by (simp_all add: Sentence_def)
  have diff: "{(0, 0), (0, 1)} - {(0, 0)} = {(0::int, 1::int)}" by auto
  show ?thesis
    using in1 out1 out2
      mark_idempotent [of "(0, 0)" "Sentence {(0, 0), (0, 1)} 2" "ai_init 8 8"]
      mark_idempotent [of "(0, 2)" "Sentence {(0, 0), (0, 1)} 2" "ai_init 8 8"]
      mark_idempotent [of "(0, 0)" "Sentence {(0, 1)} 1" "ai_init 8 8"]
    by (simp add: Sentence_def diff)
qed

section \<open>The loops over the knowledge\<close>

text \<open>
  The three loops over \<open>self.knowledge\<close> end on every input, and a property that
  each round keeps is kept by the loop. The scan only ever shortens the list it
  iterates over, so the distance between an iterator's index and the end of the
  list decreases with every round.
\<close>

lemma reevaluate_rule:
  assumes "P ai"
    and "\<And>a k. P a \<Longrightarrow> k < length (knowledge a) \<Longrightarrow>
           P (fold mark_safe (py_iter (known_safes (knowledge a ! k))) a)"
    and "\<And>a k. P a \<Longrightarrow> k < length (knowledge a) \<Longrightarrow>
           P (fold mark_mine (py_iter (known_mines (knowledge a ! k))) a)"
  shows "\<exists>ai'. reevaluate i ai = Some ai' \<and> P ai'"
  using assms(1)
proof (induction "length (knowledge ai) - i" arbitrary: i ai rule: less_induct)
  case less
  show ?case
  proof (cases "i < length (knowledge ai)")
    case False
    then show ?thesis using less.prems by (subst reevaluate.simps) simp
  next
    case True
    let ?a1 = "fold mark_safe (py_iter (known_safes (knowledge ai ! i))) ai"
    let ?a2 = "fold mark_mine (py_iter (known_mines (knowledge ?a1 ! i))) ?a1"
    have P1: "P ?a1" using less.prems True assms(2) by blast
    have "i < length (knowledge ?a1)" using True by simp
    then have P2: "P ?a2" using P1 assms(3) by blast
    have "length (knowledge ?a2) - (i + 1) < length (knowledge ai) - i" using True by simp
    from less.hyps [OF this P2] obtain ai' where "reevaluate (i + 1) ?a2 = Some ai'" "P ai'"
      by blast
    with True show ?thesis by (subst reevaluate.simps) (simp add: Let_def)
  qed
qed

lemma scan_post_weaken:
  "scan_post Q K2 r \<Longrightarrow> set K2 \<subseteq> set K \<Longrightarrow> length K2 \<le> length K \<Longrightarrow> scan_post Q K r"
  by (auto simp: scan_post_def)

lemma length_remove1_le: "length (remove1 x xs) \<le> length xs"
  by (induction xs) auto

lemma resolve_inner_rule:
  assumes U: "s \<in> U" "set K \<subseteq> U" and Q: "\<forall>d \<in> set NK. Q d"
    and derive: "\<And>a b. a \<in> U \<Longrightarrow> b \<in> U \<Longrightarrow> cells b \<noteq> {} \<Longrightarrow> card (cells b) < card (cells a)
        \<Longrightarrow> cells b \<subseteq> cells a \<Longrightarrow> Q (Sentence (cells a - cells b) (count a - count b))"
  shows "\<exists>r. resolve_inner s j K NK = Some r \<and> scan_post Q K r"
  using U(2) Q
proof (induction "length K - j" arbitrary: j K NK rule: less_induct)
  case less
  show ?case
  proof (cases "j < length K")
    case False
    then show ?thesis by (subst resolve_inner.simps) (simp add: scan_post_def less.prems)
  next
    case True
    define other where "other = K ! j"
    have oK: "other \<in> set K" using True by (simp add: other_def)
    then have oU: "other \<in> U" using less.prems by auto
    have rec: "\<exists>r. resolve_inner s (j + 1) K2 NK2 = Some r \<and> scan_post Q K r"
      if a: "set K2 \<subseteq> set K" and b: "length K2 \<le> length K" and c: "\<forall>d \<in> set NK2. Q d"
      for K2 NK2
    proof -
      have "length K2 - (j + 1) < length K - j" using b True by simp
      moreover have "set K2 \<subseteq> U" using a less.prems by auto
      ultimately obtain r where "resolve_inner s (j + 1) K2 NK2 = Some r" "scan_post Q K2 r"
        using less.hyps c by blast
      then show ?thesis using scan_post_weaken a b by blast
    qed
    have rm: "set (remove1 x K) \<subseteq> set K" "length (remove1 x K) \<le> length K" for x
      using set_remove1_subset [of x K] by (auto simp: length_remove1_le)
    show ?thesis
    proof (cases "cells other = {}")
      case True
      with \<open>j < length K\<close> oK rec [OF rm [of other] less.prems(2)] show ?thesis
        by (subst resolve_inner.simps) (simp add: other_def [symmetric] list_remove_def)
    next
      case ne: False
      consider (sup) "cells s \<noteq> {}" "s \<noteq> other" "card (cells other) < card (cells s)" "cells other \<subseteq> cells s"
        | (sub) "cells s \<noteq> {}" "s \<noteq> other" "\<not> (card (cells other) < card (cells s) \<and> cells other \<subseteq> cells s)"
            "card (cells s) < card (cells other)" "cells s \<subseteq> cells other"
        | (none) "\<not> (cells s \<noteq> {} \<and> s \<noteq> other) \<or> (\<not> (card (cells other) < card (cells s) \<and> cells other \<subseteq> cells s)
            \<and> \<not> (card (cells s) < card (cells other) \<and> cells s \<subseteq> cells other))"
        by blast
      then show ?thesis
      proof cases
        case sup
        let ?d = "Sentence (cells s - cells other) (count s - count other)"
        have "Q ?d" using derive [OF U(1) oU ne sup(3,4)] .
        then have Q': "\<forall>d \<in> set (NK @ [?d]). Q d" using less.prems(2) by simp
        show ?thesis
        proof (cases "s \<in> set K")
          case True
          with \<open>j < length K\<close> ne sup rec [OF rm [of s] Q'] show ?thesis
            by (subst resolve_inner.simps) (simp add: other_def [symmetric] list_remove_def)
        next
          case False
          with \<open>j < length K\<close> ne sup less.prems(2) show ?thesis
            by (subst resolve_inner.simps)
               (simp add: other_def [symmetric] list_remove_def scan_post_def)
        qed
      next
        case sub
        let ?d = "Sentence (cells other - cells s) (count other - count s)"
        have "Q ?d" using derive [OF oU U(1) sub(1,4,5)] .
        then have Q': "\<forall>d \<in> set (NK @ [?d]). Q d" using less.prems(2) by simp
        from \<open>j < length K\<close> ne sub oK rec [OF rm [of other] Q'] show ?thesis
          by (subst resolve_inner.simps) (simp add: other_def [symmetric] list_remove_def)
      next
        case none
        have "\<exists>r. resolve_inner s (j + 1) K NK = Some r \<and> scan_post Q K r"
          using rec [of K NK] less.prems(2) by simp
        with \<open>j < length K\<close> ne none show ?thesis
          by (subst resolve_inner.simps) (auto simp: other_def [symmetric] list_remove_def)
      qed
    qed
  qed
qed

lemma resolve_outer_rule:
  assumes U: "set K \<subseteq> U" and Q: "\<forall>d \<in> set NK. Q d"
    and derive: "\<And>a b. a \<in> U \<Longrightarrow> b \<in> U \<Longrightarrow> cells b \<noteq> {} \<Longrightarrow> card (cells b) < card (cells a)
        \<Longrightarrow> cells b \<subseteq> cells a \<Longrightarrow> Q (Sentence (cells a - cells b) (count a - count b))"
  shows "\<exists>r. resolve_outer i K NK = Some r \<and> scan_post Q K r"
  using U Q
proof (induction "length K - i" arbitrary: i K NK rule: less_induct)
  case less
  show ?case
  proof (cases "i < length K")
    case False
    then show ?thesis by (subst resolve_outer.simps) (simp add: scan_post_def less.prems)
  next
    case True
    define s where "s = K ! i"
    have sK: "s \<in> set K" using True by (simp add: s_def)
    then have sU: "s \<in> U" using less.prems by auto
    define K1 where "K1 = (if cells s = {} then remove1 s K else K)"
    have K1: "set K1 \<subseteq> set K" "length K1 \<le> length K"
      using set_remove1_subset [of s K] by (auto simp: K1_def length_remove1_le)
    have lr: "(if cells s = {} then list_remove s K else Inr K) = Inr K1"
      using sK by (simp add: K1_def list_remove_def)
    have "set K1 \<subseteq> U" using K1 less.prems by auto
    from resolve_inner_rule [OF sU this less.prems(2) derive, of 0]
    obtain r where r: "resolve_inner s 0 K1 NK = Some r" "scan_post Q K1 r" by blast
    show ?thesis
    proof (cases r)
      case (Raises e st)
      with r K1 True lr show ?thesis
        by (subst resolve_outer.simps)
           (auto simp: s_def [symmetric] scan_post_def)
    next
      case (Returns st)
      obtain K2 NK2 where st: "st = (K2, NK2)" by (cases st)
      from r Returns st have K2: "set K2 \<subseteq> set K1" "length K2 \<le> length K1" "\<forall>d \<in> set NK2. Q d"
        by (auto simp: scan_post_def)
      have "length K2 - (i + 1) < length K - i" using K2 K1 True by simp
      moreover have "set K2 \<subseteq> U" using K2 K1 less.prems by auto
      ultimately obtain r' where r': "resolve_outer (i + 1) K2 NK2 = Some r'" "scan_post Q K2 r'"
        using less.hyps K2(3) by blast
      have "scan_post Q K r'" using r'(2) K2 K1 by (auto simp: scan_post_def)
      with r Returns st r' True lr show ?thesis
        by (subst resolve_outer.simps) (simp add: s_def [symmetric])
    qed
  qed
qed



section \<open>The sentence built from an observation\<close>

lemma cell_resolved_mark_safe: "cell_resolved c a \<Longrightarrow> cell_resolved c (mark_safe x a)"
  by (auto simp: cell_resolved_def mark_safe_def sentence_mark_safe_def)

lemma cell_resolved_mark_mine: "cell_resolved c a \<Longrightarrow> cell_resolved c (mark_mine x a)"
  by (auto simp: cell_resolved_def mark_mine_def sentence_mark_mine_def)

lemma cell_resolved_fold_mark_safe: "cell_resolved c a \<Longrightarrow> cell_resolved c (fold mark_safe xs a)"
  by (induction xs arbitrary: a) (simp_all add: cell_resolved_mark_safe)

lemma cell_resolved_fold_mark_mine: "cell_resolved c a \<Longrightarrow> cell_resolved c (fold mark_mine xs a)"
  by (induction xs arbitrary: a) (simp_all add: cell_resolved_mark_mine)

lemma add_sentence_eq:
  "add_sentence cell cnt ai =
     ai\<lparr>moves_made := insert cell (moves_made ai), safes := insert cell (safes ai),
        knowledge := map (sentence_mark_safe cell) (knowledge ai)
          @ [Sentence
               {c \<in> set (around cell). in_bounds (height ai) (width ai) c
                    \<and> c \<notin> insert cell (safes ai) \<and> c \<notin> mines ai}
               (cnt - int (length (filter
                    (\<lambda>c. in_bounds (height ai) (width ai) c \<and> c \<notin> insert cell (safes ai)
                           \<and> c \<in> mines ai) (around cell))))]\<rparr>"
  by (simp add: add_sentence_def Let_def new_sentence_def adjacent_def adjacent_fold mark_safe_def)

lemma cell_resolved_add_sentence: "cell_resolved cell (add_sentence cell cnt ai)"
  by (auto simp: add_sentence_eq cell_resolved_def sentence_mark_safe_def Sentence_def)

lemma cell_resolved_add_knowledge:
  "\<exists>r. add_knowledge cell cnt ai = Some r \<and> cell_resolved cell (state_of r)"
proof -
  have "\<exists>ai4. add_and_mark cell cnt ai = Some ai4 \<and> cell_resolved cell ai4"
    unfolding add_and_mark_def
    by (rule reevaluate_rule)
       (simp_all add: cell_resolved_add_sentence cell_resolved_fold_mark_safe
          cell_resolved_fold_mark_mine)
  then obtain ai4 where ai4: "add_and_mark cell cnt ai = Some ai4" "cell_resolved cell ai4" by blast
  then have U: "set (knowledge ai4) \<subseteq> {s. cell \<notin> cells s}" by (auto simp: cell_resolved_def)
  have "\<exists>r. resolve_outer 0 (knowledge ai4) [] = Some r
          \<and> scan_post (\<lambda>d. cell \<notin> cells d) (knowledge ai4) r"
    by (rule resolve_outer_rule [OF U]) (simp_all add: Sentence_def)
  then obtain r where r: "resolve_outer 0 (knowledge ai4) [] = Some r"
    "scan_post (\<lambda>d. cell \<notin> cells d) (knowledge ai4) r" by blast
  obtain K NK where st: "state_of r = (K, NK)" by (cases "state_of r")
  with r(2) U have K: "\<forall>s \<in> set K. cell \<notin> cells s" "\<forall>s \<in> set NK. cell \<notin> cells s"
    by (auto simp: scan_post_def)
  show ?thesis
  proof (cases r)
    case (Returns x)
    with st r(1) ai4 K show ?thesis by (auto simp: add_knowledge_def cell_resolved_def)
  next
    case (Raises e x)
    with st r(1) ai4 K show ?thesis by (auto simp: add_knowledge_def cell_resolved_def)
  qed
qed

text \<open>
  Claim C9. The index ranges of the neighbour loop of \<open>add_knowledge\<close> include
  the observed cell. \<open>add_knowledge\<close> marks the cell safe first and builds the
  sentence afterwards: the sentence it appends to the knowledge, behind the old
  sentences with the cell removed, holds exactly the neighbours on the grid that
  are neither in \<open>safes\<close> as the marking has left it nor in \<open>mines\<close>, so the
  observed cell is not among its cells. The first loop of \<open>add_knowledge\<close> starts
  from that state, and however the call ends, the cell is in \<open>safes\<close> and in no
  sentence of the knowledge.
\<close>

theorem observed_cell_not_in_new_sentence:
  "cell \<in> set (around cell)
   \<and> cell \<in> safes (add_sentence cell cnt ai)
   \<and> knowledge (add_sentence cell cnt ai) =
       map (sentence_mark_safe cell) (knowledge ai) @ [last (knowledge (add_sentence cell cnt ai))]
   \<and> cells (last (knowledge (add_sentence cell cnt ai))) =
       {c \<in> set (around cell). in_bounds (height ai) (width ai) c
          \<and> c \<notin> safes (mark_safe cell ai) \<and> c \<notin> mines ai}
   \<and> cell \<notin> cells (last (knowledge (add_sentence cell cnt ai)))
   \<and> add_and_mark cell cnt ai = reevaluate 0 (add_sentence cell cnt ai)
   \<and> (\<exists>r. add_knowledge cell cnt ai = Some r \<and> cell \<in> safes (state_of r)
          \<and> (\<forall>s \<in> set (knowledge (state_of r)). cell \<notin> cells s))"
proof -
  have 1: "cell \<in> set (around cell)" by (cases cell) (simp add: around_eq)
  have 2: "safes (mark_safe cell ai) = insert cell (safes ai)" by (simp add: mark_safe_def)
  from cell_resolved_add_knowledge [of cell cnt ai]
  have 3: "\<exists>r. add_knowledge cell cnt ai = Some r \<and> cell \<in> safes (state_of r)
          \<and> (\<forall>s \<in> set (knowledge (state_of r)). cell \<notin> cells s)"
    by (simp add: cell_resolved_def)
  from 1 3 show ?thesis
    unfolding 2 by (simp add: add_sentence_eq add_and_mark_def Sentence_def)
qed

theorem observed_cell_not_in_new_sentence_witness:
  "(1, 1) \<in> set (around (1, 1))
   \<and> knowledge (add_sentence (1, 1) 2 (ai_init 3 3)) =
       [Sentence {(0, 0), (0, 1), (0, 2), (1, 0), (1, 2), (2, 0), (2, 1), (2, 2)} 2]
   \<and> (1, 1) \<notin> cells (last (knowledge (add_sentence (1, 1) 2 (ai_init 3 3))))
   \<and> add_knowledge (1, 1) 2 (ai_init 3 3) =
       Some (Returns
         \<lparr>height = 3, width = 3, moves_made = {(1, 1)}, mines = {}, safes = {(1, 1)},
          knowledge =
            [Sentence {(0, 0), (0, 1), (0, 2), (1, 0), (1, 2), (2, 0), (2, 1), (2, 2)} 2]\<rparr>)
   \<and> (\<exists>r. add_knowledge (1, 1) 2 (ai_init 3 3) = Some r \<and> (1, 1) \<in> safes (state_of r)
          \<and> (\<forall>s \<in> set (knowledge (state_of r)). (1, 1) \<notin> cells s))"
proof -
  have a: "knowledge (add_sentence (1, 1) 2 (ai_init 3 3)) =
       [Sentence {(0, 0), (0, 1), (0, 2), (1, 0), (1, 2), (2, 0), (2, 1), (2, 2)} 2]"
    by code_simp
  have b: "add_knowledge (1, 1) 2 (ai_init 3 3) =
       Some (Returns
         \<lparr>height = 3, width = 3, moves_made = {(1, 1)}, mines = {}, safes = {(1, 1)},
          knowledge =
            [Sentence {(0, 0), (0, 1), (0, 2), (1, 0), (1, 2), (2, 0), (2, 1), (2, 2)} 2]\<rparr>)"
    by code_simp
  from observed_cell_not_in_new_sentence [of "(1, 1)" 2 "ai_init 3 3"] a b show ?thesis
    by blast
qed

section \<open>Truthful games on which \<open>add_knowledge\<close> falls short\<close>

text \<open>
  Claim C1 fails on the code. On the 1 by 4 board with its mine at \<open>(0, 2)\<close>, the
  cells \<open>(0, 1)\<close> and \<open>(0, 3)\<close> are revealed. The second call appends the sentence
  \<open>{(0, 2)} = 1\<close> after \<open>{(0, 0), (0, 2)} = 1\<close>; the single pass over the knowledge
  visits the older sentence first, marks \<open>(0, 2)\<close> as a mine at the newer one, and
  does not come back: the call returns with the sentence \<open>{(0, 0)} = 0\<close> in the
  knowledge, its cell neither in \<open>safes\<close> nor in \<open>mines\<close>.
\<close>

theorem single_pass_leaves_determined_sentence:
  "init 1 4 1 [(0, 2)] = Some (Inr board_1x4)
   \<and> list_all (truthful board_1x4)
        [AddKnowledge (0, 1) 1, AddKnowledge (0, 3) 1]
   \<and> calls [AddKnowledge (0, 1) 1, AddKnowledge (0, 3) 1]
        (ai_init 1 4) =
       Some (Returns
         \<lparr>height = 1, width = 4, moves_made = {(0, 1), (0, 3)}, mines = {(0, 2)},
          safes = {(0, 1), (0, 3)}, knowledge = [Sentence {(0, 0)} 0]\<rparr>)"
  by code_simp

text \<open>
  Claim C2 fails on the code. On the 3 by 3 board with its mine in the middle,
  \<open>(0, 0)\<close>, \<open>(0, 2)\<close> and \<open>(0, 1)\<close> are revealed, then \<open>(2, 2)\<close>. When the
  pairwise scan of the fourth call starts, the knowledge holds
  \<open>A = {(1, 1), (2, 1)} = 1\<close> and \<open>B = {(1, 1)} = 1\<close>, both non-empty, the cells of
  \<open>A\<close> a strict superset of those of \<open>B\<close>. The removals shift the list under the
  two iterators, \<open>A\<close> and \<open>B\<close> are never compared, and the call returns with \<open>A\<close>
  still in the knowledge and without the sentence \<open>{(2, 1)} = 0\<close>.
\<close>

theorem scan_skips_subset_pair:
  "init 3 3 1 [(1, 1)] = Some (Inr board_3x3)
   \<and> list_all (truthful board_3x3)
        [AddKnowledge (0, 0) 1, AddKnowledge (0, 2) 1, AddKnowledge (0, 1) 1]
   \<and> calls [AddKnowledge (0, 0) 1, AddKnowledge (0, 2) 1, AddKnowledge (0, 1) 1]
        (ai_init 3 3) =
       Some (Returns
         \<lparr>height = 3, width = 3, moves_made = {(0, 0), (0, 2), (0, 1)}, mines = {},
          safes = {(0, 0), (0, 2), (0, 1)},
          knowledge = [Sentence {(1, 0), (1, 1)} 1, Sentence {(1, 1), (1, 2)} 1,
                       Sentence {(1, 2)} 0]\<rparr>)
   \<and> truthful board_3x3 (AddKnowledge (2, 2) 1)
   \<and> add_and_mark (2, 2) 1
        \<lparr>height = 3, width = 3, moves_made = {(0, 0), (0, 2), (0, 1)}, mines = {},
         safes = {(0, 0), (0, 2), (0, 1)},
         knowledge = [Sentence {(1, 0), (1, 1)} 1, Sentence {(1, 1), (1, 2)} 1,
                      Sentence {(1, 2)} 0]\<rparr> =
       Some
         \<lparr>height = 3, width = 3, moves_made = {(0, 0), (0, 2), (0, 1), (2, 2)}, mines = {},
          safes = {(0, 0), (0, 2), (0, 1), (2, 2), (1, 2)},
          knowledge = [Sentence {(1, 0), (1, 1)} 1, Sentence {(1, 1)} 1, Sentence {} 0,
                       Sentence {(1, 1), (2, 1)} 1]\<rparr>
   \<and> add_knowledge (2, 2) 1
        \<lparr>height = 3, width = 3, moves_made = {(0, 0), (0, 2), (0, 1)}, mines = {},
         safes = {(0, 0), (0, 2), (0, 1)},
         knowledge = [Sentence {(1, 0), (1, 1)} 1, Sentence {(1, 1), (1, 2)} 1,
                      Sentence {(1, 2)} 0]\<rparr> =
       Some (Returns
         \<lparr>height = 3, width = 3, moves_made = {(0, 0), (0, 2), (0, 1), (2, 2)}, mines = {},
          safes = {(0, 0), (0, 2), (0, 1), (2, 2), (1, 2)},
          knowledge = [Sentence {(1, 1)} 1, Sentence {(1, 1), (2, 1)} 1,
                       Sentence {(1, 0)} 0]\<rparr>)"
  by code_simp

text \<open>
  Claim C4 fails on the code. On the 2 by 3 board with its mine at \<open>(0, 0)\<close>, the
  cells \<open>(0, 1)\<close>, \<open>(1, 1)\<close>, \<open>(0, 2)\<close> and \<open>(1, 0)\<close> are revealed. The fourth call
  empties three sentences at once; the scan removes two of them, and the iterators
  are past the end of the shortened list before the third is looked at: the call
  returns with a sentence whose cell set is empty.
\<close>

theorem empty_sentence_survives:
  "init 2 3 1 [(0, 0)] = Some (Inr board_2x3)
   \<and> list_all (truthful board_2x3)
        [AddKnowledge (0, 1) 1, AddKnowledge (1, 1) 1, AddKnowledge (0, 2) 0, AddKnowledge (1, 0) 1]
   \<and> calls [AddKnowledge (0, 1) 1, AddKnowledge (1, 1) 1, AddKnowledge (0, 2) 0, AddKnowledge (1, 0) 1]
        (ai_init 2 3) =
       Some (Returns
         \<lparr>height = 2, width = 3, moves_made = {(0, 1), (1, 1), (0, 2), (1, 0)},
          mines = {(0, 0)}, safes = {(0, 1), (0, 2), (1, 0), (1, 1), (1, 2)},
          knowledge = [Sentence {} 0]\<rparr>)"
  by code_simp

text \<open>
  Claim C8 fails on the code. On the 3 by 3 board with its mine in the middle, the
  four corners are revealed, then \<open>(1, 2)\<close>. In the scan of the fifth call the
  outer sentence \<open>{(0, 1), (1, 1), (2, 1)} = 1\<close> is removed from the knowledge when
  its first strict subset is met, and \<open>self.knowledge.remove(sentence)\<close> is called
  again when the second is met: the call raises ValueError and does not return.
\<close>

theorem add_knowledge_raises:
  "init 3 3 1 [(1, 1)] = Some (Inr board_3x3)
   \<and> list_all (truthful board_3x3)
        [AddKnowledge (0, 0) 1, AddKnowledge (0, 2) 1, AddKnowledge (2, 0) 1, AddKnowledge (2, 2) 1]
   \<and> calls [AddKnowledge (0, 0) 1, AddKnowledge (0, 2) 1, AddKnowledge (2, 0) 1, AddKnowledge (2, 2) 1]
        (ai_init 3 3) =
       Some (Returns
         \<lparr>height = 3, width = 3, moves_made = {(0, 0), (0, 2), (2, 0), (2, 2)}, mines = {},
          safes = {(0, 0), (0, 2), (2, 0), (2, 2)},
          knowledge = [Sentence {(0, 1), (1, 0), (1, 1)} 1, Sentence {(0, 1), (1, 1), (1, 2)} 1,
                       Sentence {(1, 0), (1, 1), (2, 1)} 1, Sentence {(1, 1), (1, 2), (2, 1)} 1]\<rparr>)
   \<and> truthful board_3x3 (AddKnowledge (1, 2) 1)
   \<and> add_knowledge (1, 2) 1
        \<lparr>height = 3, width = 3, moves_made = {(0, 0), (0, 2), (2, 0), (2, 2)}, mines = {},
         safes = {(0, 0), (0, 2), (2, 0), (2, 2)},
         knowledge = [Sentence {(0, 1), (1, 0), (1, 1)} 1, Sentence {(0, 1), (1, 1), (1, 2)} 1,
                      Sentence {(1, 0), (1, 1), (2, 1)} 1, Sentence {(1, 1), (1, 2), (2, 1)} 1]\<rparr> =
       Some (Raises ValueError
         \<lparr>height = 3, width = 3, moves_made = {(0, 0), (0, 2), (2, 0), (2, 2), (1, 2)},
          mines = {}, safes = {(0, 0), (0, 2), (2, 0), (2, 2), (1, 2)},
          knowledge = [Sentence {(0, 1), (1, 1)} 1, Sentence {(1, 1), (2, 1)} 1]\<rparr>)"
  by code_simp

section \<open>Equal sentences in the knowledge\<close>

text \<open>
  Claim C5 fails on the code. On the 2 by 3 board with its mine at \<open>(0, 0)\<close>, the
  cells \<open>(0, 1)\<close> and \<open>(1, 1)\<close> are revealed: both see the same four unknown
  neighbours and the same mine. The second call appends a sentence equal to the one
  already there, the scan skips a pair of equal sentences, and the call returns
  with two equal entries.
\<close>

theorem duplicates_counterexample:
  "init 2 3 1 [(0, 0)] = Some (Inr board_2x3)
   \<and> list_all (truthful board_2x3) [AddKnowledge (0, 1) 1, AddKnowledge (1, 1) 1]
   \<and> calls [AddKnowledge (0, 1) 1, AddKnowledge (1, 1) 1] (ai_init 2 3) =
       Some (Returns
         \<lparr>height = 2, width = 3, moves_made = {(0, 1), (1, 1)}, mines = {},
          safes = {(0, 1), (1, 1)},
          knowledge = [Sentence {(0, 0), (0, 2), (1, 0), (1, 2)} 1,
                       Sentence {(0, 0), (0, 2), (1, 0), (1, 2)} 1]\<rparr>)
   \<and> \<not> distinct (knowledge
         \<lparr>height = 2, width = 3, moves_made = {(0, 1), (1, 1)}, mines = {},
          safes = {(0, 1), (1, 1)},
          knowledge = [Sentence {(0, 0), (0, 2), (1, 0), (1, 2)} 1,
                       Sentence {(0, 0), (0, 2), (1, 0), (1, 2)} 1]\<rparr>)"
  by code_simp

lemma subseq_remove1: "subseq (remove1 x xs) xs"
  by (induction xs) auto

lemma count_list_remove1: "x \<noteq> t \<Longrightarrow> count_list (remove1 x xs) t = count_list xs t"
  by (induction xs) auto

lemma kept_refl: "kept K K"
  by (simp add: kept_def)

lemma kept_set: "kept K0 K \<Longrightarrow> set K \<subseteq> set K0"
  by (auto simp: kept_def dest: list_emb_set)

lemma kept_remove1:
  assumes "kept K0 K" "retirable K0 x"
  shows "kept K0 (remove1 x K)"
proof -
  have "subseq (remove1 x K) K0"
    using subseq_remove1 [of x K] assms(1) by (auto simp: kept_def intro: subseq_order.trans)
  moreover have "count_list (remove1 x K) t = count_list K0 t" if "\<not> retirable K0 t" for t
  proof -
    from that assms(2) have "x \<noteq> t" by auto
    then show ?thesis using assms(1) that by (simp add: count_list_remove1 kept_def)
  qed
  ultimately show ?thesis by (simp add: kept_def)
qed

lemma resolve_inner_kept:
  assumes s: "s \<in> set K0" and k: "kept K0 K"
  shows "\<exists>r. resolve_inner s j K NK = Some r \<and> kept K0 (fst (state_of r))"
  using k
proof (induction "length K - j" arbitrary: j K NK rule: less_induct)
  case less
  show ?case
  proof (cases "j < length K")
    case False
    then show ?thesis using less.prems by (subst resolve_inner.simps) simp
  next
    case True
    define other where "other = K ! j"
    have oK: "other \<in> set K" using True by (simp add: other_def)
    then have oK0: "other \<in> set K0" using kept_set [OF less.prems] by auto
    have rec: "\<exists>r. resolve_inner s (j + 1) K2 NK2 = Some r \<and> kept K0 (fst (state_of r))"
      if a: "kept K0 K2" and b: "length K2 \<le> length K" for K2 NK2
    proof -
      have "length K2 - (j + 1) < length K - j" using b True by simp
      then show ?thesis using less.hyps a by blast
    qed
    have len: "length (remove1 x K) \<le> length K" for x by (rule length_remove1_le)
    show ?thesis
    proof (cases "cells other = {}")
      case True
      then have "retirable K0 other" by (simp add: retirable_def)
      from rec [OF kept_remove1 [OF less.prems this] len] True \<open>j < length K\<close> oK
      show ?thesis
        by (subst resolve_inner.simps) (simp add: other_def [symmetric] list_remove_def)
    next
      case ne: False
      consider (sup) "cells s \<noteq> {}" "s \<noteq> other" "card (cells other) < card (cells s)" "cells other \<subseteq> cells s"
        | (sub) "cells s \<noteq> {}" "s \<noteq> other" "\<not> (card (cells other) < card (cells s) \<and> cells other \<subseteq> cells s)"
            "card (cells s) < card (cells other)" "cells s \<subseteq> cells other"
        | (none) "\<not> (cells s \<noteq> {} \<and> s \<noteq> other) \<or> (\<not> (card (cells other) < card (cells s) \<and> cells other \<subseteq> cells s)
            \<and> \<not> (card (cells s) < card (cells other) \<and> cells s \<subseteq> cells other))"
        by blast
      then show ?thesis
      proof cases
        case sup
        then have "cells other \<subset> cells s" by auto
        with ne oK0 have rs: "retirable K0 s" by (auto simp: retirable_def)
        show ?thesis
        proof (cases "s \<in> set K")
          case True
          from rec [OF kept_remove1 [OF less.prems rs] len] True \<open>j < length K\<close> ne sup
          show ?thesis
            by (subst resolve_inner.simps) (simp add: other_def [symmetric] list_remove_def)
        next
          case False
          with \<open>j < length K\<close> ne sup less.prems show ?thesis
            by (subst resolve_inner.simps) (simp add: other_def [symmetric] list_remove_def)
        qed
      next
        case sub
        then have "cells s \<subset> cells other" by auto
        with sub(1) s have ro: "retirable K0 other" by (auto simp: retirable_def)
        from rec [OF kept_remove1 [OF less.prems ro] len] \<open>j < length K\<close> ne sub oK
        show ?thesis
          by (subst resolve_inner.simps) (simp add: other_def [symmetric] list_remove_def)
      next
        case none
        have "\<exists>r. resolve_inner s (j + 1) K NK = Some r \<and> kept K0 (fst (state_of r))"
          using rec [of K NK] less.prems by simp
        with \<open>j < length K\<close> ne none show ?thesis
          by (subst resolve_inner.simps) (auto simp: other_def [symmetric] list_remove_def)
      qed
    qed
  qed
qed

lemma resolve_outer_kept:
  assumes "kept K0 K"
  shows "\<exists>r. resolve_outer i K NK = Some r \<and> kept K0 (fst (state_of r))"
  using assms
proof (induction "length K - i" arbitrary: i K NK rule: less_induct)
  case less
  show ?case
  proof (cases "i < length K")
    case False
    then show ?thesis using less.prems by (subst resolve_outer.simps) simp
  next
    case True
    define s where "s = K ! i"
    have sK: "s \<in> set K" using True by (simp add: s_def)
    then have sK0: "s \<in> set K0" using kept_set [OF less.prems] by auto
    define K1 where "K1 = (if cells s = {} then remove1 s K else K)"
    have k1: "kept K0 K1"
      using less.prems kept_remove1 [OF less.prems, of s] by (simp add: K1_def retirable_def)
    have l1: "length K1 \<le> length K" by (simp add: K1_def length_remove1_le)
    have lr: "(if cells s = {} then list_remove s K else Inr K) = Inr K1"
      using sK by (simp add: K1_def list_remove_def)
    from resolve_inner_kept [OF sK0 k1, of 0 NK]
    obtain r where r: "resolve_inner s 0 K1 NK = Some r" "kept K0 (fst (state_of r))" by blast
    from resolve_inner_rule [of s UNIV K1 NK "\<lambda>_. True" 0] r(1)
    have l2: "length (fst (state_of r)) \<le> length K1" by (simp add: scan_post_def)
    show ?thesis
    proof (cases r)
      case (Raises e st)
      with r True lr show ?thesis
        by (subst resolve_outer.simps) (auto simp: s_def [symmetric])
    next
      case (Returns st)
      obtain K2 NK2 where st: "st = (K2, NK2)" by (cases st)
      from r Returns st l2 have K2: "kept K0 K2" "length K2 \<le> length K1" by simp_all
      have "length K2 - (i + 1) < length K - i" using K2 l1 True by simp
      from less.hyps [OF this K2(1)] obtain r' where
        "resolve_outer (i + 1) K2 NK2 = Some r'" "kept K0 (fst (state_of r'))" by blast
      with r Returns st True lr show ?thesis
        by (subst resolve_outer.simps) (simp add: s_def [symmetric])
    qed
  qed
qed

lemma resolve_inner_idle:
  assumes "\<forall>t \<in> set K. \<not> retirable K t" "s \<in> set K"
  shows "resolve_inner s j K NK = Some (Returns (K, NK))"
proof (induction "length K - j" arbitrary: j rule: less_induct)
  case less
  show ?case
  proof (cases "j < length K")
    case False
    then show ?thesis by (subst resolve_inner.simps) simp
  next
    case True
    define other where "other = K ! j"
    have oK: "other \<in> set K" using True by (simp add: other_def)
    have ne: "cells other \<noteq> {}" "cells s \<noteq> {}" using assms oK by (auto simp: retirable_def)
    have no1: "\<not> (card (cells other) < card (cells s) \<and> cells other \<subseteq> cells s)"
    proof
      assume "card (cells other) < card (cells s) \<and> cells other \<subseteq> cells s"
      then have "cells other \<subset> cells s" by auto
      with ne oK have "retirable K s" by (auto simp: retirable_def)
      with assms show False by blast
    qed
    have no2: "\<not> (card (cells s) < card (cells other) \<and> cells s \<subseteq> cells other)"
    proof
      assume "card (cells s) < card (cells other) \<and> cells s \<subseteq> cells other"
      then have "cells s \<subset> cells other" by auto
      with ne assms(2) have "retirable K other" by (auto simp: retirable_def)
      with assms(1) oK show False by blast
    qed
    have "length K - (j + 1) < length K - j" using True by simp
    from less.hyps [OF this] True ne no1 no2 show ?thesis
      by (subst resolve_inner.simps) (auto simp: other_def [symmetric])
  qed
qed

lemma resolve_outer_idle:
  assumes "\<forall>t \<in> set K. \<not> retirable K t"
  shows "resolve_outer i K NK = Some (Returns (K, NK))"
proof (induction "length K - i" arbitrary: i rule: less_induct)
  case less
  show ?case
  proof (cases "i < length K")
    case False
    then show ?thesis by (subst resolve_outer.simps) simp
  next
    case True
    define s where "s = K ! i"
    have sK: "s \<in> set K" using True by (simp add: s_def)
    then have ne: "cells s \<noteq> {}" using assms by (auto simp: retirable_def)
    have "length K - (i + 1) < length K - i" using True by simp
    from less.hyps [OF this] True ne resolve_inner_idle [OF assms sK, of 0 NK] show ?thesis
      by (subst resolve_outer.simps) (simp add: s_def [symmetric])
  qed
qed

text \<open>
  Claim C5, amended. Equal sentences can be in the knowledge when \<open>add_knowledge\<close>
  returns. What holds is this: when a call returns, the object is the one that the
  first loop has left, with the knowledge replaced by \<open>K\<close> followed by \<open>NK\<close>,
  where
  \<^item> \<open>K\<close> is the scanned knowledge (the knowledge as the first loop has left it)
    with some entries removed and the order kept;
  \<^item> every sentence that is neither empty nor has cells that strictly include the
    cells of a non-empty scanned entry occurs in \<open>K\<close> exactly as often as in the
    scanned knowledge, hence at least as often in the knowledge on return: equal
    entries of that kind all stay;
  \<^item> every sentence of \<open>NK\<close> has the cells \<open>A.cells - B.cells\<close> and the count
    \<open>A.count - B.count\<close> of two scanned entries \<open>A\<close> and \<open>B\<close>, the cells of
    \<open>B\<close> a non-empty strict subset of the cells of \<open>A\<close>;
  \<^item> when no scanned entry is empty and none has cells that strictly include the
    cells of another, the call returns the object unchanged by the scan.
\<close>

theorem duplicates_are_kept:
  assumes "add_and_mark cell cnt ai = Some ai4"
    and "add_knowledge cell cnt ai = Some (Returns ai')"
  shows "\<exists>K NK. ai' = ai4\<lparr>knowledge := K @ NK\<rparr>
           \<and> subseq K (knowledge ai4)
           \<and> (\<forall>t. \<not> retirable (knowledge ai4) t \<longrightarrow>
                  count_list K t = count_list (knowledge ai4) t
                  \<and> count_list (knowledge ai4) t \<le> count_list (knowledge ai') t)
           \<and> (\<forall>d \<in> set NK. \<exists>A \<in> set (knowledge ai4). \<exists>B \<in> set (knowledge ai4).
                  cells B \<noteq> {} \<and> cells B \<subset> cells A
                  \<and> d = Sentence (cells A - cells B) (count A - count B))
           \<and> ((\<forall>t \<in> set (knowledge ai4). \<not> retirable (knowledge ai4) t) \<longrightarrow> ai' = ai4)"
proof -
  let ?K0 = "knowledge ai4"
  let ?Q = "\<lambda>d. \<exists>A \<in> set ?K0. \<exists>B \<in> set ?K0. cells B \<noteq> {} \<and> cells B \<subset> cells A
                 \<and> d = Sentence (cells A - cells B) (count A - count B)"
  from assms obtain K NK where r: "resolve_outer 0 ?K0 [] = Some (Returns (K, NK))"
    and ai': "ai' = ai4\<lparr>knowledge := K @ NK\<rparr>"
    by (auto simp: add_knowledge_def split: option.splits outcome.splits prod.splits)
  have "\<exists>r. resolve_outer 0 ?K0 [] = Some r \<and> scan_post ?Q ?K0 r"
  proof (rule resolve_outer_rule [where U = "set ?K0"])
    fix a b assume "a \<in> set ?K0" "b \<in> set ?K0" "cells b \<noteq> {}" "card (cells b) < card (cells a)"
      "cells b \<subseteq> cells a"
    moreover from this have "cells b \<noteq> cells a" by auto
    ultimately show "?Q (Sentence (cells a - cells b) (count a - count b))" by blast
  qed simp_all
  with r have Q: "\<forall>d \<in> set NK. ?Q d" by (simp add: scan_post_def)
  from resolve_outer_kept [of ?K0 ?K0 0 "[]", OF kept_refl] r have k: "kept ?K0 K" by simp
  have idle: "ai' = ai4" if "\<forall>t \<in> set ?K0. \<not> retirable ?K0 t"
    using resolve_outer_idle [OF that, of 0 "[]"] r ai' by simp
  from k have "subseq K ?K0"
    and "\<forall>t. \<not> retirable ?K0 t \<longrightarrow> count_list K t = count_list ?K0 t
          \<and> count_list ?K0 t \<le> count_list (knowledge ai') t"
    by (simp_all add: kept_def ai')
  with ai' Q idle show ?thesis by blast
qed

theorem duplicates_are_kept_witness:
  "add_and_mark (0, 1) 1
     \<lparr>height = 3, width = 3, moves_made = {(0, 0), (0, 2)}, mines = {},
      safes = {(0, 0), (0, 2)},
      knowledge = [Sentence {(0, 1), (1, 0), (1, 1)} 1, Sentence {(0, 1), (1, 1), (1, 2)} 1]\<rparr>
     = Some
        \<lparr>height = 3, width = 3, moves_made = {(0, 0), (0, 2), (0, 1)}, mines = {},
         safes = {(0, 0), (0, 2), (0, 1)},
         knowledge = [Sentence {(1, 0), (1, 1)} 1, Sentence {(1, 1), (1, 2)} 1,
                      Sentence {(1, 0), (1, 1), (1, 2)} 1]\<rparr>
   \<and> add_knowledge (0, 1) 1
     \<lparr>height = 3, width = 3, moves_made = {(0, 0), (0, 2)}, mines = {},
      safes = {(0, 0), (0, 2)},
      knowledge = [Sentence {(0, 1), (1, 0), (1, 1)} 1, Sentence {(0, 1), (1, 1), (1, 2)} 1]\<rparr>
     = Some (Returns
        \<lparr>height = 3, width = 3, moves_made = {(0, 0), (0, 2), (0, 1)}, mines = {},
         safes = {(0, 0), (0, 2), (0, 1)},
         knowledge = [Sentence {(1, 0), (1, 1)} 1, Sentence {(1, 1), (1, 2)} 1,
                      Sentence {(1, 2)} 0]\<rparr>)
   \<and> (\<exists>K NK. [Sentence {(1, 0), (1, 1)} 1, Sentence {(1, 1), (1, 2)} 1, Sentence {(1, 2)} 0]
           = K @ NK
         \<and> subseq K [Sentence {(1, 0), (1, 1)} 1, Sentence {(1, 1), (1, 2)} 1,
                      Sentence {(1, 0), (1, 1), (1, 2)} 1]
         \<and> count_list K (Sentence {(1, 0), (1, 1)} 1) = 1
         \<and> (\<forall>d \<in> set NK.
               \<exists>A \<in> set [Sentence {(1, 0), (1, 1)} 1, Sentence {(1, 1), (1, 2)} 1,
                            Sentence {(1, 0), (1, 1), (1, 2)} 1].
               \<exists>B \<in> set [Sentence {(1, 0), (1, 1)} 1, Sentence {(1, 1), (1, 2)} 1,
                            Sentence {(1, 0), (1, 1), (1, 2)} 1].
                 cells B \<noteq> {} \<and> cells B \<subset> cells A
                 \<and> d = Sentence (cells A - cells B) (count A - count B)))"
proof -
  let ?ai = "\<lparr>height = 3, width = 3, moves_made = {(0, 0), (0, 2)}, mines = {},
      safes = {(0, 0), (0, 2)},
      knowledge = [Sentence {(0, 1), (1, 0), (1, 1)} 1, Sentence {(0, 1), (1, 1), (1, 2)} 1]\<rparr>"
  let ?K0 = "[Sentence {(1, 0), (1, 1)} 1, Sentence {(1, 1), (1, 2)} 1,
                      Sentence {(1, 0), (1, 1), (1, 2)} 1]"
  let ?K' = "[Sentence {(1, 0), (1, 1)} 1, Sentence {(1, 1), (1, 2)} 1, Sentence {(1, 2)} 0]"
  let ?ai4 = "\<lparr>height = 3, width = 3, moves_made = {(0, 0), (0, 2), (0, 1)}, mines = {},
         safes = {(0, 0), (0, 2), (0, 1)}, knowledge = ?K0\<rparr>"
  let ?ai' = "\<lparr>height = 3, width = 3, moves_made = {(0, 0), (0, 2), (0, 1)}, mines = {},
         safes = {(0, 0), (0, 2), (0, 1)}, knowledge = ?K'\<rparr>"
  have h1: "add_and_mark (0, 1) 1 ?ai = Some ?ai4" by code_simp
  have h2: "add_knowledge (0, 1) 1 ?ai = Some (Returns ?ai')" by code_simp
  have nr: "\<not> retirable ?K0 (Sentence {(1, 0), (1, 1)} 1)" by code_simp
  have c0: "count_list ?K0 (Sentence {(1, 0), (1, 1)} 1) = 1" by code_simp
  from duplicates_are_kept [OF h1 h2] obtain K NK where
    a: "?ai' = ?ai4\<lparr>knowledge := K @ NK\<rparr>" and b: "subseq K ?K0"
    and c: "\<forall>t. \<not> retirable ?K0 t \<longrightarrow> count_list K t = count_list ?K0 t
                  \<and> count_list ?K0 t \<le> count_list ?K' t"
    and d: "\<forall>d \<in> set NK. \<exists>A \<in> set ?K0. \<exists>B \<in> set ?K0.
                  cells B \<noteq> {} \<and> cells B \<subset> cells A
                  \<and> d = Sentence (cells A - cells B) (count A - count B)"
    unfolding select_convs by blast
  from a have "?K' = K @ NK" by simp
  moreover from c nr c0 have "count_list K (Sentence {(1, 0), (1, 1)} 1) = 1" by metis
  ultimately show ?thesis using h1 h2 b d by blast
qed

section \<open>The board that \<open>__init__\<close> builds\<close>

lemma set_py_range: "set (py_range a b) = {a..<b}"
  by (auto simp: py_range_def)

lemma set_cells_of: "set (cells_of h w) = {c. in_bounds h w c}"
  by (auto simp: cells_of_def set_py_range in_bounds_def)

lemma py_get_in_range: "0 \<le> i \<Longrightarrow> i < int (length xs) \<Longrightarrow> py_get xs i = Inr (xs ! nat i)"
  by (simp add: py_get_def Let_def)

lemma randrange_bounds: "randrange n r = Inr i \<Longrightarrow> 0 \<le> i \<and> i < n"
  by (auto simp: randrange_def split: if_splits)

lemma board_shape_empty:
  "board_shape h w \<lparr>minesweeper.height = h, width = w, mines = {}, board = empty_board h w,
     mines_found = {}\<rparr>"
  by (auto simp: board_shape_def empty_board_def in_bounds_def)

lemma board_shape_place:
  assumes s: "board_shape h w g" and ij: "in_bounds h w (i, j)"
  shows "board_shape h w
           (g\<lparr>minesweeper.mines := insert (i, j) (minesweeper.mines g),
              board := (board g)[nat i := (board g ! nat i)[nat j := True]]\<rparr>)"
proof -
  from ij have i: "nat i < length (board g)" using s by (simp add: board_shape_def in_bounds_def)
  then have row: "length (board g ! nat i) = nat w" using s by (simp add: board_shape_def)
  have rows: "\<forall>row \<in> set ((board g)[nat i := (board g ! nat i)[nat j := True]]). length row = nat w"
    using s row by (auto simp: board_shape_def dest!: set_update_subset_insert [THEN subsetD])
  have cellsb: "((board g)[nat i := (board g ! nat i)[nat j := True]]) ! nat i' ! nat j'
      = ((i', j') \<in> insert (i, j) (minesweeper.mines g))" if "in_bounds h w (i', j')" for i' j'
  proof -
    from that s have old: "board g ! nat i' ! nat j' = ((i', j') \<in> minesweeper.mines g)"
      and i': "nat i' < length (board g)" and nn: "0 \<le> i'" "0 \<le> j'" "j' < w"
      by (simp_all add: board_shape_def in_bounds_def)
    from ij have nn2: "0 \<le> i" "0 \<le> j" "j < w" by (simp_all add: in_bounds_def)
    show ?thesis
    proof (cases "i' = i")
      case True
      with i row nn nn2 old show ?thesis by (cases "j' = j") (simp_all add: nth_list_update)
    next
      case False
      with nn nn2 have "nat i' \<noteq> nat i" by simp
      with old False show ?thesis by simp
    qed
  qed
  from s ij rows cellsb show ?thesis by (simp add: board_shape_def)
qed

lemma add_mines_shape:
  "board_shape h w g \<Longrightarrow> add_mines h w n rs g = Some (Inr g') \<Longrightarrow>
   board_shape h w g' \<and> int (card (minesweeper.mines g')) = n"
proof (induction rs arbitrary: g)
  case Nil
  then show ?case by (subst (asm) add_mines.simps) (auto split: if_splits)
next
  case (Cons r rs)
  obtain r1 r2 where r: "r = (r1, r2)" by (cases r)
  show ?case
  proof (cases "int (card (minesweeper.mines g)) = n")
    case True
    with Cons.prems show ?thesis by (subst (asm) add_mines.simps) simp
  next
    case False
    from Cons.prems(2) False r obtain i j where
      i: "randrange h r1 = Inr i" and j: "randrange w r2 = Inr j"
      by (subst (asm) add_mines.simps) (auto split: sum.splits)
    from randrange_bounds [OF i] randrange_bounds [OF j] have ij: "in_bounds h w (i, j)"
      by (simp add: in_bounds_def)
    with Cons.prems(1) have gi: "py_get (board g) i = Inr (board g ! nat i)"
      by (intro py_get_in_range) (simp_all add: board_shape_def in_bounds_def)
    from ij Cons.prems(1) have "length (board g ! nat i) = nat w"
      by (simp add: board_shape_def in_bounds_def)
    with ij have gj: "py_get (board g ! nat i) j = Inr (board g ! nat i ! nat j)"
      by (intro py_get_in_range) (simp_all add: in_bounds_def)
    show ?thesis
    proof (cases "board g ! nat i ! nat j")
      case True
      with Cons.prems(2) False r i j gi gj have "add_mines h w n rs g = Some (Inr g')"
        by (subst (asm) add_mines.simps) simp
      from Cons.IH [OF Cons.prems(1) this] show ?thesis .
    next
      case nb: False
      let ?g = "g\<lparr>minesweeper.mines := insert (i, j) (minesweeper.mines g),
              board := (board g)[nat i := (board g ! nat i)[nat j := True]]\<rparr>"
      from Cons.prems(2) False r i j gi gj nb have "add_mines h w n rs ?g = Some (Inr g')"
        by (subst (asm) add_mines.simps) simp
      from Cons.IH [OF board_shape_place [OF Cons.prems(1) ij] this] show ?thesis .
    qed
  qed
qed

lemma board_shape_agrees: "board_shape h w g \<Longrightarrow> board_agrees g"
proof -
  assume s: "board_shape h w g"
  have "is_mine g (i, j) = Inr ((i, j) \<in> minesweeper.mines g)" if ij: "in_bounds h w (i, j)" for i j
  proof -
    from ij s have gi: "py_get (board g) i = Inr (board g ! nat i)"
      by (intro py_get_in_range) (simp_all add: board_shape_def in_bounds_def)
    from ij s have "length (board g ! nat i) = nat w" by (simp add: board_shape_def in_bounds_def)
    with ij have gj: "py_get (board g ! nat i) j = Inr (board g ! nat i ! nat j)"
      by (intro py_get_in_range) (simp_all add: in_bounds_def)
    from s ij gi gj show ?thesis by (simp add: is_mine_def board_shape_def)
  qed
  with s show ?thesis by (auto simp: board_agrees_def set_cells_of board_shape_def)
qed

lemma game_step_id: "game_step op g = g"
  by (cases op) simp_all

lemma fold_game_step: "fold game_step ops g = g"
  by (induction ops) (simp_all add: game_step_id)

text \<open>
  The placement loop ends for some random source whenever the requested number of
  mines fits on the grid: drawing the cells row by row places a new mine in every
  round.
\<close>

lemma inj_nth_cell: "nth_cell w k = nth_cell w k' \<Longrightarrow> k = k'"
proof -
  assume "nth_cell w k = nth_cell w k'"
  then have "k div nat w = k' div nat w" "k mod nat w = k' mod nat w"
    by (simp_all add: nth_cell_def)
  then show ?thesis by (metis div_mult_mod_eq)
qed

lemma card_nth_cells: "card (nth_cell w ` {..<k}) = k"
proof -
  have "inj_on (nth_cell w) {..<k}" by (auto simp: inj_on_def dest: inj_nth_cell)
  then show ?thesis by (simp add: card_image)
qed

lemma add_mines_enumeration:
  assumes "board_shape h w g" "minesweeper.mines g = nth_cell w ` {..<k}" "k \<le> N"
    "N \<le> nat h * nat w"
  shows "\<exists>g'. add_mines h w (int N) (map (\<lambda>m. (m div nat w, m mod nat w)) [k..<N]) g = Some (Inr g')"
  using assms
proof (induction "N - k" arbitrary: k g)
  case 0
  then have "int (card (minesweeper.mines g)) = int N" by (simp add: card_nth_cells)
  then show ?case by (subst add_mines.simps) simp
next
  case (Suc d)
  from Suc.hyps(2) have kN: "k < N" by simp
  with Suc.prems(4) have lt: "k < nat h * nat w" by simp
  have pos: "0 < w" "0 < h"
  proof -
    have "nat w \<noteq> 0" "nat h \<noteq> 0" using lt by auto
    then show "0 < w" "0 < h" by simp_all
  qed
  from lt have kd: "k div nat w < nat h" by (rule less_mult_imp_div_less)
  let ?i = "int (k div nat w)" and ?j = "int (k mod nat w)"
  have card: "int (card (minesweeper.mines g)) \<noteq> int N"
    using kN Suc.prems(2) by (simp add: card_nth_cells)
  have ilt: "?i < h" using kd pos by linarith
  have "k mod nat w < nat w" using pos by simp
  then have jlt: "?j < w" using pos by linarith
  have ri: "randrange h (k div nat w) = Inr ?i"
    using pos ilt by (simp add: randrange_def del: of_nat_div)
  have rj: "randrange w (k mod nat w) = Inr ?j"
    using pos jlt by (simp add: randrange_def del: of_nat_mod)
  have ib: "in_bounds h w (?i, ?j)" using ilt jlt by (simp add: in_bounds_def)
  with Suc.prems(1) have gi: "py_get (board g) ?i = Inr (board g ! nat ?i)"
    by (intro py_get_in_range) (simp_all add: board_shape_def in_bounds_def)
  from Suc.prems(1) kd have "board g ! nat ?i \<in> set (board g)" by (simp add: board_shape_def)
  with Suc.prems(1) have "length (board g ! nat ?i) = nat w" by (simp add: board_shape_def)
  with ib have gj: "py_get (board g ! nat ?i) ?j = Inr (board g ! nat ?i ! nat ?j)"
    by (intro py_get_in_range) (simp_all add: in_bounds_def)
  have agree: "board g ! nat ?i ! nat ?j = ((?i, ?j) \<in> minesweeper.mines g)"
    using Suc.prems(1) ib unfolding board_shape_def by blast
  have nc: "nth_cell w k = (?i, ?j)" by (simp add: nth_cell_def)
  have "nth_cell w k \<notin> minesweeper.mines g" unfolding Suc.prems(2) by (auto dest: inj_nth_cell)
  then have free: "\<not> board g ! nat ?i ! nat ?j" unfolding agree nc .
  let ?g = "g\<lparr>minesweeper.mines := insert (?i, ?j) (minesweeper.mines g),
              board := (board g)[nat ?i := (board g ! nat ?i)[nat ?j := True]]\<rparr>"
  have shape: "board_shape h w ?g" by (rule board_shape_place [OF Suc.prems(1) ib])
  have "insert (nth_cell w k) (nth_cell w ` {..<k}) = nth_cell w ` {..<Suc k}"
    by (simp add: lessThan_Suc)
  then have mines: "minesweeper.mines ?g = nth_cell w ` {..<Suc k}"
    unfolding nc using Suc.prems(2) by simp
  have "d = N - Suc k" using Suc.hyps(2) by simp
  from Suc.hyps(1) [OF this shape mines _ Suc.prems(4)] kN obtain g' where
    g': "add_mines h w (int N) (map (\<lambda>m. (m div nat w, m mod nat w)) [Suc k..<N]) ?g = Some (Inr g')"
    by auto
  have "[k..<N] = k # [Suc k..<N]" using kN by (simp add: upt_conv_Cons)
  with card ri rj gi gj free g' show ?case
    by (subst add_mines.simps) simp
qed

lemma init_returns:
  assumes "0 \<le> n" "0 \<le> h" "0 \<le> w" "n \<le> h * w"
  shows "\<exists>rs g. init h w n rs = Some (Inr g)"
proof -
  have "nat n \<le> nat h * nat w" using assms by (simp add: nat_mult_distrib [symmetric] nat_mono)
  from add_mines_enumeration [OF board_shape_empty _ _ this, of 0] assms(1) show ?thesis
    by (auto simp: init_def)
qed

text \<open>
  Claim C10. A game that \<open>__init__(height, width, mines)\<close> has built has exactly
  the requested number of mines, all of them on the grid, and on every cell of the
  grid \<open>is_mine\<close> answers whether the cell is in the mines set; the game has the
  requested height and width, and every sequence of calls of its methods leaves
  all of this in place.
\<close>

theorem init_establishes_invariant:
  assumes "init h w n rs = Some (Inr g)"
  shows "game_inv n g \<and> minesweeper.height g = h \<and> minesweeper.width g = w
         \<and> game_inv n (fold game_step ops g)"
proof -
  from add_mines_shape [OF board_shape_empty assms [unfolded init_def]]
  have s: "board_shape h w g" and c: "int (card (minesweeper.mines g)) = n" by simp_all
  from s c board_shape_agrees [OF s] have "game_inv n g \<and> minesweeper.height g = h \<and> minesweeper.width g = w"
    by (simp add: game_inv_def board_shape_def)
  then show ?thesis by (simp add: fold_game_step)
qed

theorem init_establishes_invariant_witness:
  "init 3 3 1 [(4, 1)] = Some (Inr board_3x3)
   \<and> game_inv 1 board_3x3
   \<and> game_inv 1 (fold game_step [IsMine (1, 1), NearbyMines (0, 0), Won, Print] board_3x3)"
proof -
  have h: "init 3 3 1 [(4, 1)] = Some (Inr board_3x3)" by code_simp
  from h init_establishes_invariant [OF h, of "[IsMine (1, 1), NearbyMines (0, 0), Won, Print]"]
  show ?thesis by blast
qed

section \<open>Growth and disjointness of \<open>mines\<close> and \<open>safes\<close>\<close>




























end
